theory Spec2Isabelle
  imports Main "HOL-Library.FSet" "HOL-Library.Product_Lexorder"
begin

section \<open>Data model\<close>

text \<open>
  A cell is a pair of Python integers \<open>(row, col)\<close>.  Python sets of cells are finite,
  so they are finite sets here.  A \<open>Sentence\<close> object has the two attributes the
  constructor assigns; structural equality (\<open>__eq__\<close>) is equality of the record.
\<close>

type_synonym cell = "int \<times> int"

datatype error = KeyError | IndexError

record sentence =
  cells :: "cell fset"
  count :: int

record ai =
  height :: int
  width :: int
  moves_made :: "cell fset"
  mines :: "cell fset"
  safes :: "cell fset"
  knowledge :: "sentence list"

record minesweeper =
  g_height :: int
  g_width :: int
  board :: "bool list list"

section \<open>Python primitives\<close>

text \<open>
  Iterating over a Python set visits every element once, in an order the language does
  not fix.  The model visits them in increasing order; the lemmas on the loops below
  show that the result of each loop over a set does not depend on the order.
\<close>

definition iter :: "cell fset \<Rightarrow> cell list" where
  "iter S = sorted_list_of_fset S"

text \<open>\<open>set.remove(x)\<close> raises \<open>KeyError\<close> when \<open>x\<close> is not a member.\<close>

definition set_remove :: "cell \<Rightarrow> cell fset \<Rightarrow> error + cell fset" where
  "set_remove c S = (if c |\<in>| S then Inr (S |-| {|c|}) else Inl KeyError)"

text \<open>\<open>range(lo, hi)\<close> on integers.\<close>

definition py_range :: "int \<Rightarrow> int \<Rightarrow> int list" where
  "py_range lo hi = [lo..hi - 1]"

text \<open>\<open>xs[i]\<close>: a negative index counts from the end, an index out of range raises.\<close>

definition py_index :: "'a list \<Rightarrow> int \<Rightarrow> error + 'a" where
  "py_index xs i =
     (if 0 \<le> i \<and> i < int (length xs) then Inr (xs ! nat i)
      else if i < 0 \<and> - int (length xs) \<le> i then Inr (xs ! nat (int (length xs) + i))
      else Inl IndexError)"

text \<open>A \<open>for\<close> loop whose body may raise: the first error ends the loop.\<close>

fun for_each :: "('a \<Rightarrow> 's \<Rightarrow> error + 's) \<Rightarrow> 'a list \<Rightarrow> 's \<Rightarrow> error + 's" where
  "for_each body [] s = Inr s"
| "for_each body (x # xs) s =
     (case body x s of Inl e \<Rightarrow> Inl e | Inr s' \<Rightarrow> for_each body xs s')"

text \<open>A \<open>for\<close> loop that calls a mutating method on every object of a list.\<close>

fun update_each :: "('a \<Rightarrow> error + 'a) \<Rightarrow> 'a list \<Rightarrow> error + 'a list" where
  "update_each f [] = Inr []"
| "update_each f (x # xs) =
     (case f x of
        Inl e \<Rightarrow> Inl e
      | Inr x' \<Rightarrow> (case update_each f xs of Inl e \<Rightarrow> Inl e | Inr xs' \<Rightarrow> Inr (x' # xs')))"

text \<open>
  The cells visited by the two nested loops \<open>for i in range(cell[0] - 1, cell[0] + 2)\<close>,
  \<open>for j in range(cell[1] - 1, cell[1] + 2)\<close>, in the order of the loops.  Both
  \<open>nearby_mines\<close> and \<open>add_knowledge\<close> run them.
\<close>

definition block :: "cell \<Rightarrow> cell list" where
  "block c =
     concat (map (\<lambda>i. map (\<lambda>j. (i, j)) (py_range (snd c - 1) (snd c + 2)))
                 (py_range (fst c - 1) (fst c + 2)))"

section \<open>Class \<open>Minesweeper\<close>\<close>

text \<open>
  Of the game object only the board and its dimensions are read by the methods below:
  \<open>board[i][j]\<close> is \<open>True\<close> where a mine lies.  (The fields are named \<open>g_height\<close> and
  \<open>g_width\<close> to keep them apart from those of the player.)
\<close>

definition is_mine :: "minesweeper \<Rightarrow> cell \<Rightarrow> error + bool" where
  "is_mine g c =
     (case c of (i, j) \<Rightarrow>
        (case py_index (board g) i of Inl e \<Rightarrow> Inl e | Inr row \<Rightarrow> py_index row j))"

text \<open>
  \<open>nearby_mines\<close>: the body of the inner loop acting on \<open>count\<close>, and the two nested
  loops over the rows and columns next to the cell.
\<close>

definition count_cell :: "minesweeper \<Rightarrow> cell \<Rightarrow> cell \<Rightarrow> int \<Rightarrow> error + int" where
  "count_cell g c ij cnt =
     (if ij = c then Inr cnt
      else if (0 \<le> fst ij \<and> fst ij < g_height g) \<and> (0 \<le> snd ij \<and> snd ij < g_width g) then
        (case py_index (board g) (fst ij) of
           Inl e \<Rightarrow> Inl e
         | Inr row \<Rightarrow>
             (case py_index row (snd ij) of
                Inl e \<Rightarrow> Inl e
              | Inr b \<Rightarrow> Inr (if b then cnt + 1 else cnt)))
      else Inr cnt)"

definition nearby_mines :: "minesweeper \<Rightarrow> cell \<Rightarrow> error + int" where
  "nearby_mines g c = for_each (count_cell g c) (block c) 0"

section \<open>Class \<open>Sentence\<close>\<close>

definition Sentence :: "cell fset \<Rightarrow> int \<Rightarrow> sentence" where
  "Sentence cs n = \<lparr>cells = cs, count = n\<rparr>"

text \<open>
  \<open>known_mines\<close> and \<open>known_safes\<close> return the set they build together with the
  sentence object as they leave it.
\<close>

definition known_mines :: "sentence \<Rightarrow> cell fset \<times> sentence" where
  "known_mines s =
     (let mines0 = {||};
          mines1 = (if int (fcard (cells s)) = count s \<and> count s \<noteq> 0
                    then fold finsert (iter (cells s)) mines0 else mines0)
      in (mines1, s))"

definition known_safes :: "sentence \<Rightarrow> cell fset \<times> sentence" where
  "known_safes s =
     (let safes0 = {||};
          safes1 = (if count s = 0 then fold finsert (iter (cells s)) safes0 else safes0)
      in (safes1, s))"

definition sentence_mark_mine :: "cell \<Rightarrow> sentence \<Rightarrow> error + sentence" where
  "sentence_mark_mine c s =
     (if c |\<in>| cells s then
        (case set_remove c (cells s) of
           Inl e \<Rightarrow> Inl e
         | Inr cs \<Rightarrow> Inr (s\<lparr>cells := cs, count := count s - 1\<rparr>))
      else Inr s)"

definition sentence_mark_safe :: "cell \<Rightarrow> sentence \<Rightarrow> error + sentence" where
  "sentence_mark_safe c s =
     (if c |\<in>| cells s then
        (case set_remove c (cells s) of
           Inl e \<Rightarrow> Inl e
         | Inr cs \<Rightarrow> Inr (s\<lparr>cells := cs\<rparr>))
      else Inr s)"

section \<open>Class \<open>MinesweeperAI\<close>\<close>

definition MinesweeperAI :: "int \<Rightarrow> int \<Rightarrow> ai" where
  "MinesweeperAI h w =
     \<lparr>height = h, width = w, moves_made = {||}, mines = {||}, safes = {||}, knowledge = []\<rparr>"

definition mark_mine :: "cell \<Rightarrow> ai \<Rightarrow> error + ai" where
  "mark_mine c a =
     (let a1 = a\<lparr>mines := finsert c (mines a)\<rparr> in
      case update_each (sentence_mark_mine c) (knowledge a1) of
        Inl e \<Rightarrow> Inl e
      | Inr K \<Rightarrow> Inr (a1\<lparr>knowledge := K\<rparr>))"

definition mark_safe :: "cell \<Rightarrow> ai \<Rightarrow> error + ai" where
  "mark_safe c a =
     (let a1 = a\<lparr>safes := finsert c (safes a)\<rparr> in
      case update_each (sentence_mark_safe c) (knowledge a1) of
        Inl e \<Rightarrow> Inl e
      | Inr K \<Rightarrow> Inr (a1\<lparr>knowledge := K\<rparr>))"

text \<open>
  The body of the inner loop of \<open>add_knowledge\<close>, acting on the pair
  \<open>(unexplored_neighbours, mine_count)\<close>.
\<close>

definition scan_cell :: "ai \<Rightarrow> cell \<Rightarrow> cell fset \<times> int \<Rightarrow> cell fset \<times> int" where
  "scan_cell a ij acc =
     (case acc of (unexplored, mine_count) \<Rightarrow>
        let mine_count1 = (if ij |\<in>| mines a then mine_count + 1 else mine_count);
            unexplored1 =
              (if (0 \<le> fst ij \<and> fst ij < height a) \<and> (0 \<le> snd ij \<and> snd ij < width a)
               then (if ij |\<notin>| safes a \<and> ij |\<notin>| mines a
                     then finsert ij unexplored else unexplored)
               else unexplored)
        in (unexplored1, mine_count1))"

text \<open>Steps 1 to 3 of \<open>add_knowledge\<close>: up to the append of the new sentence.\<close>

definition add_sentence :: "cell \<Rightarrow> int \<Rightarrow> ai \<Rightarrow> error + ai" where
  "add_sentence c n a =
     (let a1 = a\<lparr>moves_made := finsert c (moves_made a)\<rparr> in
      case mark_safe c a1 of
        Inl e \<Rightarrow> Inl e
      | Inr a2 \<Rightarrow>
          (case fold (scan_cell a2) (block c) ({||}, 0) of
             (unexplored_neighbours, mine_count) \<Rightarrow>
               let new_sentence = Sentence unexplored_neighbours (n - mine_count)
               in Inr (a2\<lparr>knowledge := knowledge a2 @ [new_sentence]\<rparr>)))"

text \<open>
  The first \<open>for\<close> loop of the \<open>while\<close> body: every sentence is asked for its known
  safes and known mines, which are accumulated.
\<close>

fun scan_knowledge ::
  "sentence list \<Rightarrow> cell fset \<Rightarrow> cell fset \<Rightarrow> sentence list \<times> cell fset \<times> cell fset" where
  "scan_knowledge [] new_safes new_mines = ([], new_safes, new_mines)"
| "scan_knowledge (s # K) new_safes new_mines =
     (case known_safes s of (ks, s1) \<Rightarrow>
      case known_mines s1 of (km, s2) \<Rightarrow>
      case scan_knowledge K (new_safes |\<union>| ks) (new_mines |\<union>| km) of
        (K', ns, nm) \<Rightarrow> (s2 # K', ns, nm))"

text \<open>
  The nested loops of step 5: the sentences collected in \<open>new_knowledge\<close>, in order.
  \<open>!=\<close> and \<open>not in\<close> compare sentences with \<open>__eq__\<close>.
\<close>

definition infer_pair :: "sentence list \<Rightarrow> sentence \<Rightarrow> sentence \<Rightarrow> sentence list" where
  "infer_pair K sentence1 sentence2 =
     (if sentence1 \<noteq> sentence2 \<and> cells sentence2 |\<subseteq>| cells sentence1 then
        (let inferred_sentence =
               Sentence (cells sentence1 |-| cells sentence2) (count sentence1 - count sentence2)
         in if inferred_sentence \<notin> set K then [inferred_sentence] else [])
      else [])"

definition new_knowledge :: "sentence list \<Rightarrow> sentence list" where
  "new_knowledge K = concat (map (\<lambda>sentence1. concat (map (infer_pair K sentence1) K)) K)"

text \<open>
  The \<open>while True\<close> loop.  \<open>None\<close> stands for a loop that never exits, \<open>Some (Inl e)\<close>
  for a raised exception and \<open>Some (Inr a)\<close> for the state at the \<open>break\<close>.
\<close>

partial_function (option) closure :: "ai \<Rightarrow> (error + ai) option" where
  "closure a =
     (case scan_knowledge (knowledge a) {||} {||} of
        (K, new_safes, new_mines) \<Rightarrow>
          let a0 = a\<lparr>knowledge := K\<rparr> in
          if new_safes = {||} \<and> new_mines = {||} then Some (Inr a0)
          else
            (case for_each mark_safe (iter new_safes) a0 of
               Inl e \<Rightarrow> Some (Inl e)
             | Inr a1 \<Rightarrow>
                 (case for_each mark_mine (iter new_mines) a1 of
                    Inl e \<Rightarrow> Some (Inl e)
                  | Inr a2 \<Rightarrow>
                      closure (a2\<lparr>knowledge := knowledge a2 @ new_knowledge (knowledge a2)\<rparr>))))"

declare closure.simps [code]

definition add_knowledge :: "cell \<Rightarrow> int \<Rightarrow> ai \<Rightarrow> (error + ai) option" where
  "add_knowledge c n a =
     (case add_sentence c n a of Inl e \<Rightarrow> Some (Inl e) | Inr a' \<Rightarrow> closure a')"

text \<open>A sequence of calls of \<open>add_knowledge\<close> on the same object.\<close>

fun observe_all :: "(cell \<times> int) list \<Rightarrow> ai \<Rightarrow> (error + ai) option" where
  "observe_all [] a = Some (Inr a)"
| "observe_all ((c, n) # obs) a =
     (case add_knowledge c n a of
        Some (Inr a') \<Rightarrow> observe_all obs a'
      | Some (Inl e) \<Rightarrow> Some (Inl e)
      | None \<Rightarrow> None)"

text \<open>
  \<open>make_safe_move\<close>: the first cell of \<open>safes\<close>, in the order the \<open>for\<close> loop visits
  them, that is not in \<open>moves_made\<close>; the state is returned as the method leaves it.
  The order in which Python visits a set is not fixed by the language, so it is an
  argument of the model: any list of the cells of \<open>safes\<close>.
\<close>

fun first_unplayed :: "cell list \<Rightarrow> cell fset \<Rightarrow> cell option" where
  "first_unplayed [] played = None"
| "first_unplayed (c # cs) played =
     (if c |\<in>| played then first_unplayed cs played else Some c)"

definition make_safe_move_in :: "cell list \<Rightarrow> ai \<Rightarrow> cell option \<times> ai" where
  "make_safe_move_in order a = (first_unplayed order (moves_made a), a)"

section \<open>Notions used to state the claims\<close>

text \<open>
  The eight neighbours of a cell in the plane, and the cells that lie on the board of a
  player.
\<close>

definition neighbours :: "cell \<Rightarrow> cell fset" where
  "neighbours c =
     (case c of (i, j) \<Rightarrow>
        {|(i - 1, j - 1), (i - 1, j), (i - 1, j + 1),
          (i, j - 1), (i, j + 1),
          (i + 1, j - 1), (i + 1, j), (i + 1, j + 1)|})"

definition in_bounds :: "ai \<Rightarrow> cell \<Rightarrow> bool" where
  "in_bounds a d \<longleftrightarrow> 0 \<le> fst d \<and> fst d < height a \<and> 0 \<le> snd d \<and> snd d < width a"

text \<open>
  The new sentence as the specification describes it: steps 1 to 3 of \<open>add_knowledge\<close>
  return without an exception, and the sentences they leave are the ones held before,
  without the observed cell, followed by one sentence whose cells are the neighbours on
  the board that are neither in \<open>safes\<close> nor in \<open>mines\<close> and whose count is the reported
  count minus the number of neighbours in \<open>mines\<close>.
\<close>

definition new_sentence_as_claimed :: "cell \<Rightarrow> int \<Rightarrow> ai \<Rightarrow> bool" where
  "new_sentence_as_claimed c n a =
     (case add_sentence c n a of
        Inl e \<Rightarrow> False
      | Inr a' \<Rightarrow>
          knowledge a' =
            map (\<lambda>k. k\<lparr>cells := cells k |-| {|c|}\<rparr>) (knowledge a) @
            [Sentence (ffilter (\<lambda>d. in_bounds a d \<and> d |\<notin>| safes a \<and> d |\<notin>| mines a) (neighbours c))
               (n - int (fcard (neighbours c |\<inter>| mines a)))])"

text \<open>No sentence holds a cell that is in \<open>safes\<close> or in \<open>mines\<close>.\<close>

definition resolved_free :: "ai \<Rightarrow> bool" where
  "resolved_free a \<longleftrightarrow>
     (\<forall>k \<in> set (knowledge a). cells k |\<inter>| (safes a |\<union>| mines a) = {||})"

text \<open>
  A board as the constructor of \<open>Minesweeper\<close> builds it: \<open>height\<close> rows of \<open>width\<close>
  entries.  An observation is truthful for a board when its cell is not a mine of the
  board and its count is the one \<open>nearby_mines\<close> returns.
\<close>

definition well_formed :: "minesweeper \<Rightarrow> bool" where
  "well_formed g \<longleftrightarrow>
     length (board g) = nat (g_height g) \<and>
     (\<forall>row \<in> set (board g). length row = nat (g_width g))"

definition truthful :: "minesweeper \<Rightarrow> cell \<times> int \<Rightarrow> bool" where
  "truthful g obs = (case obs of (c, n) \<Rightarrow> is_mine g c = Inr False \<and> nearby_mines g c = Inr n)"

section \<open>Auxiliary functions for the proofs\<close>

text \<open>
  What marking a set of cells safe, or as mines, does to one sentence, and what one call
  of \<open>mark_safe\<close> or \<open>mark_mine\<close> does to the state.
\<close>

definition drop_safes :: "cell fset \<Rightarrow> sentence \<Rightarrow> sentence" where
  "drop_safes S k = k\<lparr>cells := cells k |-| S\<rparr>"

definition drop_mines :: "cell fset \<Rightarrow> sentence \<Rightarrow> sentence" where
  "drop_mines S k = k\<lparr>cells := cells k |-| S, count := count k - int (fcard (cells k |\<inter>| S))\<rparr>"

definition safe_step :: "cell \<Rightarrow> ai \<Rightarrow> ai" where
  "safe_step c a = a\<lparr>safes := finsert c (safes a), knowledge := map (drop_safes {|c|}) (knowledge a)\<rparr>"

definition mine_step :: "cell \<Rightarrow> ai \<Rightarrow> ai" where
  "mine_step c a = a\<lparr>mines := finsert c (mines a), knowledge := map (drop_mines {|c|}) (knowledge a)\<rparr>"

text \<open>
  The sets \<open>new_safes\<close> and \<open>new_mines\<close> a pass of the loop collects, the cells that
  occur in some sentence, the exit test of the loop, and the state after one pass that
  does not exit: resolution of the collected cells, then subset inference.
\<close>

fun found_safes :: "sentence list \<Rightarrow> cell fset" where
  "found_safes [] = {||}"
| "found_safes (s # K) = fst (known_safes s) |\<union>| found_safes K"

fun found_mines :: "sentence list \<Rightarrow> cell fset" where
  "found_mines [] = {||}"
| "found_mines (s # K) = fst (known_mines s) |\<union>| found_mines K"

fun all_cells :: "sentence list \<Rightarrow> cell fset" where
  "all_cells [] = {||}"
| "all_cells (s # K) = cells s |\<union>| all_cells K"

definition settled :: "ai \<Rightarrow> bool" where
  "settled a \<longleftrightarrow> found_safes (knowledge a) = {||} \<and> found_mines (knowledge a) = {||}"

definition resolve :: "ai \<Rightarrow> ai" where
  "resolve a =
     (let ns = found_safes (knowledge a); nm = found_mines (knowledge a)
      in a\<lparr>safes := ns |\<union>| safes a, mines := nm |\<union>| mines a,
            knowledge := map (\<lambda>k. drop_mines nm (drop_safes ns k)) (knowledge a)\<rparr>)"

definition round_step :: "ai \<Rightarrow> ai" where
  "round_step a =
     (let a2 = resolve a in a2\<lparr>knowledge := knowledge a2 @ new_knowledge (knowledge a2)\<rparr>)"

text \<open>The state after steps 1 to 3 of \<open>add_knowledge\<close>.\<close>

definition undetermined :: "ai \<Rightarrow> cell \<Rightarrow> bool" where
  "undetermined a d \<longleftrightarrow> in_bounds a d \<and> d |\<notin>| safes a \<and> d |\<notin>| mines a"

definition sentence_added :: "cell \<Rightarrow> int \<Rightarrow> ai \<Rightarrow> ai" where
  "sentence_added c n a =
     a\<lparr>moves_made := finsert c (moves_made a),
       safes := finsert c (safes a),
       knowledge := map (drop_safes {|c|}) (knowledge a) @
         [Sentence (ffilter (undetermined a) (neighbours c))
            (n - (int (fcard (neighbours c |\<inter>| mines a)) + (if c |\<in>| mines a then 1 else 0)))]\<rparr>"

text \<open>
  The mines of a board, and a player state that is true of a board: its dimensions are
  the board's, its safe cells are not mines, its mines are mines, and every sentence
  counts the mines among its cells.
\<close>

definition mine_at :: "minesweeper \<Rightarrow> cell \<Rightarrow> bool" where
  "mine_at g d \<longleftrightarrow>
     (0 \<le> fst d \<and> fst d < g_height g) \<and> (0 \<le> snd d \<and> snd d < g_width g) \<and>
     board g ! nat (fst d) ! nat (snd d)"

definition sound :: "minesweeper \<Rightarrow> ai \<Rightarrow> bool" where
  "sound g a \<longleftrightarrow>
     height a = g_height g \<and> width a = g_width g \<and>
     (\<forall>c. c |\<in>| safes a \<longrightarrow> \<not> mine_at g c) \<and>
     (\<forall>c. c |\<in>| mines a \<longrightarrow> mine_at g c) \<and>
     (\<forall>k \<in> set (knowledge a). int (fcard (ffilter (mine_at g) (cells k))) = count k)"

section \<open>Effect of the marking operations\<close>

lemma fold_finsert: "fold finsert xs A = fset_of_list xs |\<union>| A"
  by (induction xs arbitrary: A) auto

lemma fold_finsert_iter: "fold finsert (iter S) {||} = S"
  by (simp add: fold_finsert iter_def)

lemma known_mines_eq:
  "known_mines s = (if int (fcard (cells s)) = count s \<and> count s \<noteq> 0 then cells s else {||}, s)"
  by (simp add: known_mines_def fold_finsert_iter)

lemma known_safes_eq:
  "known_safes s = (if count s = 0 then cells s else {||}, s)"
  by (simp add: known_safes_def fold_finsert_iter)

lemma sentence_mark_safe_eq: "sentence_mark_safe c s = Inr (drop_safes {|c|} s)"
  by (simp add: sentence_mark_safe_def set_remove_def drop_safes_def)

lemma fcard_finter_single:
  "fcard (A |\<inter>| {|c|}) = (if c |\<in>| A then 1 else 0)"
proof (cases "c |\<in>| A")
  case True
  then have "A |\<inter>| {|c|} = {|c|}" by auto
  then show ?thesis using True by (simp add: fcard_finsert_if)
next
  case False
  then have "A |\<inter>| {|c|} = {||}" by auto
  then show ?thesis using False by simp
qed

lemma sentence_mark_mine_eq: "sentence_mark_mine c s = Inr (drop_mines {|c|} s)"
  by (simp add: sentence_mark_mine_def set_remove_def drop_mines_def fcard_finter_single)

lemma update_each_total:
  "(\<And>x. f x = Inr (g x)) \<Longrightarrow> update_each f xs = Inr (map g xs)"
  by (induction xs) simp_all

lemma mark_safe_eq:
  "mark_safe c a = Inr (a\<lparr>safes := finsert c (safes a), knowledge := map (drop_safes {|c|}) (knowledge a)\<rparr>)"
  by (simp add: mark_safe_def update_each_total [where g = "drop_safes {|c|}"] sentence_mark_safe_eq)

lemma mark_mine_eq:
  "mark_mine c a = Inr (a\<lparr>mines := finsert c (mines a), knowledge := map (drop_mines {|c|}) (knowledge a)\<rparr>)"
  by (simp add: mark_mine_def update_each_total [where g = "drop_mines {|c|}"] sentence_mark_mine_eq)

lemma drop_safes_twice: "drop_safes T (drop_safes S k) = drop_safes (S |\<union>| T) k"
proof -
  have "cells k |-| S |-| T = cells k |-| (S |\<union>| T)" by auto
  then show ?thesis by (simp add: drop_safes_def)
qed

lemma fcard_split_inter:
  "fcard (A |\<inter>| (S |\<union>| T)) = fcard (A |\<inter>| S) + fcard ((A |-| S) |\<inter>| T)"
proof -
  have "A |\<inter>| (S |\<union>| T) = (A |\<inter>| S) |\<union>| ((A |-| S) |\<inter>| T)" by auto
  moreover have "(A |\<inter>| S) |\<inter>| ((A |-| S) |\<inter>| T) = {||}" by auto
  ultimately show ?thesis by (simp add: fcard_funion_disjoint)
qed

lemma drop_mines_twice: "drop_mines T (drop_mines S k) = drop_mines (S |\<union>| T) k"
proof -
  have "cells k |-| S |-| T = cells k |-| (S |\<union>| T)" by auto
  then show ?thesis by (simp add: drop_mines_def fcard_split_inter)
qed

lemma for_each_total:
  "(\<And>x s. body x s = Inr (g x s)) \<Longrightarrow> for_each body xs s = Inr (fold g xs s)"
  by (induction xs arbitrary: s) simp_all

lemma drop_safes_empty: "drop_safes {||} k = k"
  by (simp add: drop_safes_def)

lemma drop_mines_empty: "drop_mines {||} k = k"
  by (simp add: drop_mines_def fcard_fempty)

lemma fold_safe_step:
  "fold safe_step xs a =
     a\<lparr>safes := fset_of_list xs |\<union>| safes a,
        knowledge := map (drop_safes (fset_of_list xs)) (knowledge a)\<rparr>"
proof (induction xs arbitrary: a)
  case Nil
  show ?case by (simp add: drop_safes_empty)
next
  case (Cons x xs)
  have u: "{|x|} |\<union>| fset_of_list xs = finsert x (fset_of_list xs)" by auto
  have "fold safe_step (x # xs) a = fold safe_step xs (safe_step x a)" by simp
  also have "\<dots> = (safe_step x a)\<lparr>safes := fset_of_list xs |\<union>| safes (safe_step x a),
        knowledge := map (drop_safes (fset_of_list xs)) (knowledge (safe_step x a))\<rparr>"
    by (rule Cons)
  also have "\<dots> = a\<lparr>safes := fset_of_list (x # xs) |\<union>| safes a,
        knowledge := map (drop_safes (fset_of_list (x # xs))) (knowledge a)\<rparr>"
    by (simp add: safe_step_def drop_safes_twice comp_def u)
  finally show ?case .
qed

lemma fold_mine_step:
  "fold mine_step xs a =
     a\<lparr>mines := fset_of_list xs |\<union>| mines a,
        knowledge := map (drop_mines (fset_of_list xs)) (knowledge a)\<rparr>"
proof (induction xs arbitrary: a)
  case Nil
  show ?case by (simp add: drop_mines_empty)
next
  case (Cons x xs)
  have u: "{|x|} |\<union>| fset_of_list xs = finsert x (fset_of_list xs)" by auto
  have "fold mine_step (x # xs) a = fold mine_step xs (mine_step x a)" by simp
  also have "\<dots> = (mine_step x a)\<lparr>mines := fset_of_list xs |\<union>| mines (mine_step x a),
        knowledge := map (drop_mines (fset_of_list xs)) (knowledge (mine_step x a))\<rparr>"
    by (rule Cons)
  also have "\<dots> = a\<lparr>mines := fset_of_list (x # xs) |\<union>| mines a,
        knowledge := map (drop_mines (fset_of_list (x # xs))) (knowledge a)\<rparr>"
    by (simp add: mine_step_def drop_mines_twice comp_def u)
  finally show ?case .
qed

lemma for_each_mark_safe:
  "for_each mark_safe xs a =
     Inr (a\<lparr>safes := fset_of_list xs |\<union>| safes a,
            knowledge := map (drop_safes (fset_of_list xs)) (knowledge a)\<rparr>)"
proof -
  have "for_each mark_safe xs a = Inr (fold safe_step xs a)"
    by (rule for_each_total) (simp add: mark_safe_eq safe_step_def)
  then show ?thesis by (simp only: fold_safe_step)
qed

lemma for_each_mark_mine:
  "for_each mark_mine xs a =
     Inr (a\<lparr>mines := fset_of_list xs |\<union>| mines a,
            knowledge := map (drop_mines (fset_of_list xs)) (knowledge a)\<rparr>)"
proof -
  have "for_each mark_mine xs a = Inr (fold mine_step xs a)"
    by (rule for_each_total) (simp add: mark_mine_eq mine_step_def)
  then show ?thesis by (simp only: fold_mine_step)
qed

section \<open>The deductive-closure loop\<close>

lemma scan_knowledge_eq:
  "scan_knowledge K ns nm = (K, ns |\<union>| found_safes K, nm |\<union>| found_mines K)"
proof (induction K arbitrary: ns nm)
  case Nil
  show ?case by simp
next
  case (Cons s K)
  show ?case
    by (simp add: Cons known_safes_eq known_mines_eq funion_assoc)
qed

lemma found_safes_iff:
  "c |\<in>| found_safes K \<longleftrightarrow> (\<exists>k \<in> set K. count k = 0 \<and> c |\<in>| cells k)"
  by (induction K) (auto simp: known_safes_eq)

lemma found_mines_iff:
  "c |\<in>| found_mines K \<longleftrightarrow>
     (\<exists>k \<in> set K. int (fcard (cells k)) = count k \<and> count k \<noteq> 0 \<and> c |\<in>| cells k)"
  by (induction K) (auto simp: known_mines_eq)

lemma all_cells_iff: "c |\<in>| all_cells K \<longleftrightarrow> (\<exists>k \<in> set K. c |\<in>| cells k)"
  by (induction K) auto

lemma fset_of_list_iter: "fset_of_list (iter S) = S"
  by (simp add: iter_def)

lemma closure_unfold:
  "closure a = (if settled a then Some (Inr a) else closure (round_step a))"
proof -
  have "a\<lparr>knowledge := knowledge a\<rparr> = a" by simp
  then show ?thesis
    by (subst closure.simps)
       (simp add: scan_knowledge_eq settled_def for_each_mark_safe for_each_mark_mine
          fset_of_list_iter round_step_def resolve_def Let_def comp_def)
qed

lemma cells_new_knowledge:
  "k \<in> set (new_knowledge K) \<Longrightarrow> \<exists>k1 \<in> set K. cells k |\<subseteq>| cells k1"
  by (auto simp: new_knowledge_def infer_pair_def Sentence_def Let_def split: if_splits)

lemma all_cells_append: "all_cells (K @ L) = all_cells K |\<union>| all_cells L"
  by (induction K) auto

lemma all_cells_new_knowledge: "all_cells (new_knowledge K) |\<subseteq>| all_cells K"
proof
  fix c assume "c |\<in>| all_cells (new_knowledge K)"
  then obtain k where k: "k \<in> set (new_knowledge K)" "c |\<in>| cells k"
    by (auto simp: all_cells_iff)
  from cells_new_knowledge [OF k(1)] obtain k1 where "k1 \<in> set K" "cells k |\<subseteq>| cells k1"
    by blast
  with k(2) show "c |\<in>| all_cells K" by (auto simp: all_cells_iff)
qed

lemma all_cells_resolved:
  "all_cells (map (\<lambda>k. drop_mines nm (drop_safes ns k)) K) = all_cells K |-| (ns |\<union>| nm)"
  by (induction K) (auto simp: drop_mines_def drop_safes_def)

lemma all_cells_round_step:
  "all_cells (knowledge (round_step a)) =
     all_cells (knowledge a) |-| (found_safes (knowledge a) |\<union>| found_mines (knowledge a))"
proof -
  let ?K = "map (\<lambda>k. drop_mines (found_mines (knowledge a)) (drop_safes (found_safes (knowledge a)) k))
              (knowledge a)"
  have "all_cells (knowledge (round_step a)) = all_cells ?K |\<union>| all_cells (new_knowledge ?K)"
    by (simp add: round_step_def resolve_def Let_def all_cells_append)
  also have "\<dots> = all_cells ?K"
    using all_cells_new_knowledge [of ?K] by blast
  finally show ?thesis by (simp only: all_cells_resolved)
qed

lemma found_subset_all_cells:
  "found_safes K |\<union>| found_mines K |\<subseteq>| all_cells K"
  by (auto simp: found_safes_iff found_mines_iff all_cells_iff)

lemma round_step_decreases:
  assumes "\<not> settled a"
  shows "fcard (all_cells (knowledge (round_step a))) < fcard (all_cells (knowledge a))"
proof -
  let ?R = "found_safes (knowledge a) |\<union>| found_mines (knowledge a)"
  from assms obtain c where c: "c |\<in>| ?R" by (auto simp: settled_def)
  with found_subset_all_cells [of "knowledge a"] have "c |\<in>| all_cells (knowledge a)" by blast
  with c have "all_cells (knowledge a) |-| ?R |\<subset>| all_cells (knowledge a)" by blast
  then show ?thesis
    by (simp only: all_cells_round_step pfsubset_fcard_mono)
qed

lemma closure_rule:
  assumes "P a" and step: "\<And>b. P b \<Longrightarrow> \<not> settled b \<Longrightarrow> P (round_step b)"
  shows "\<exists>a'. closure a = Some (Inr a') \<and> P a' \<and> settled a'"
  using assms(1)
proof (induction "fcard (all_cells (knowledge a))" arbitrary: a rule: less_induct)
  case less
  show ?case
  proof (cases "settled a")
    case True
    with less.prems show ?thesis by (subst closure_unfold) simp
  next
    case False
    have "\<exists>a'. closure (round_step a) = Some (Inr a') \<and> P a' \<and> settled a'"
      using False less.prems by (intro less.hyps round_step_decreases step)
    with False show ?thesis by (subst closure_unfold) simp
  qed
qed

section \<open>The new sentence of an observation\<close>

lemma py_range_3: "py_range (x - 1) (x + 2) = [x - 1, x, x + 1]"
proof -
  have "[x - 1..x + 1] = (x - 1) # [x..x + 1]" by (subst upto_rec1) simp_all
  also have "[x..x + 1] = x # [x + 1..x + 1]" by (subst upto_rec1) simp_all
  finally have "[x - 1..x + 1] = [x - 1, x, x + 1]" by simp
  moreover have "x + 2 - 1 = x + 1" by simp
  ultimately show ?thesis by (simp only: py_range_def)
qed

lemma block_eq:
  "block (i, j) =
     [(i - 1, j - 1), (i - 1, j), (i - 1, j + 1),
      (i, j - 1), (i, j), (i, j + 1),
      (i + 1, j - 1), (i + 1, j), (i + 1, j + 1)]"
  by (simp add: block_def py_range_3)

lemma distinct_block: "distinct (block c)"
  by (cases c) (simp add: block_eq)

lemma fset_of_list_block: "fset_of_list (block c) = finsert c (neighbours c)"
  by (cases c) (auto simp: block_eq neighbours_def)

lemma not_self_neighbour: "c |\<notin>| neighbours c"
  by (cases c) (simp add: neighbours_def)

lemma scan_cell_eq:
  "scan_cell a x (U, m) =
     (if undetermined a x then finsert x U else U, if x |\<in>| mines a then m + 1 else m)"
  by (simp add: scan_cell_def undetermined_def in_bounds_def)

lemma fold_scan_cell:
  "fold (scan_cell a) xs (U, m) =
     (U |\<union>| fset_of_list (filter (undetermined a) xs),
      m + int (length (filter (\<lambda>d. d |\<in>| mines a) xs)))"
proof (induction xs arbitrary: U m)
  case Nil
  show ?case by simp
next
  case (Cons x xs)
  have "fold (scan_cell a) (x # xs) (U, m) = fold (scan_cell a) xs (scan_cell a x (U, m))"
    by simp
  then show ?case by (auto simp: scan_cell_eq Cons)
qed

lemma length_filter_fcard:
  "distinct xs \<Longrightarrow> length (filter (\<lambda>d. d |\<in>| S) xs) = fcard (fset_of_list xs |\<inter>| S)"
proof (induction xs)
  case Nil
  show ?case by (simp add: fcard_fempty)
next
  case (Cons x xs)
  then have x: "x |\<notin>| fset_of_list xs" by (simp add: fset_of_list_elem)
  show ?case
  proof (cases "x |\<in>| S")
    case True
    then have "finsert x (fset_of_list xs) |\<inter>| S = finsert x (fset_of_list xs |\<inter>| S)" by auto
    with True x Cons show ?thesis by (simp add: fcard_finsert_if)
  next
    case False
    then have "finsert x (fset_of_list xs) |\<inter>| S = fset_of_list xs |\<inter>| S" by auto
    with False Cons show ?thesis by simp
  qed
qed

lemma block_mines:
  "int (length (filter (\<lambda>d. d |\<in>| mines a) (block c))) =
     int (fcard (neighbours c |\<inter>| mines a)) + (if c |\<in>| mines a then 1 else 0)"
proof -
  have "length (filter (\<lambda>d. d |\<in>| mines a) (block c)) = fcard (finsert c (neighbours c) |\<inter>| mines a)"
    by (simp add: length_filter_fcard distinct_block fset_of_list_block)
  moreover have "c |\<in>| mines a \<Longrightarrow>
      finsert c (neighbours c) |\<inter>| mines a = finsert c (neighbours c |\<inter>| mines a)" by auto
  moreover have "c |\<notin>| mines a \<Longrightarrow> finsert c (neighbours c) |\<inter>| mines a = neighbours c |\<inter>| mines a"
    by auto
  ultimately show ?thesis using not_self_neighbour [of c] by (simp add: fcard_finsert_if)
qed

lemma add_sentence_eq: "add_sentence c n a = Inr (sentence_added c n a)"
proof -
  let ?a2 = "a\<lparr>moves_made := finsert c (moves_made a), safes := finsert c (safes a),
              knowledge := map (drop_safes {|c|}) (knowledge a)\<rparr>"
  have u: "fset_of_list (filter (undetermined ?a2) (block c)) = ffilter (undetermined a) (neighbours c)"
    using not_self_neighbour [of c]
    by (auto simp: fset_of_list_block undetermined_def in_bounds_def)
  have m: "int (length (filter (\<lambda>d. d |\<in>| mines ?a2) (block c))) =
      int (fcard (neighbours c |\<inter>| mines a)) + (if c |\<in>| mines a then 1 else 0)"
    using block_mines [of ?a2 c] by simp
  have "fold (scan_cell ?a2) (block c) ({||}, 0) =
      (ffilter (undetermined a) (neighbours c),
       int (fcard (neighbours c |\<inter>| mines a)) + (if c |\<in>| mines a then 1 else 0))"
    by (simp only: fold_scan_cell u m) simp
  then show ?thesis
    by (simp add: add_sentence_def mark_safe_eq sentence_added_def Let_def)
qed

section \<open>Rules for \<open>add_knowledge\<close> and for sequences of calls\<close>

lemma add_knowledge_rule:
  assumes "P (sentence_added c n a)"
    and "\<And>b. P b \<Longrightarrow> \<not> settled b \<Longrightarrow> P (round_step b)"
  shows "\<exists>a'. add_knowledge c n a = Some (Inr a') \<and> P a' \<and> settled a'"
  using closure_rule [of P "sentence_added c n a", OF assms]
  by (simp add: add_knowledge_def add_sentence_eq)

lemma observe_all_rule:
  assumes "P a"
    and "\<And>b c n. P b \<Longrightarrow> (c, n) \<in> set obs \<Longrightarrow> P (sentence_added c n b)"
    and "\<And>b. P b \<Longrightarrow> \<not> settled b \<Longrightarrow> P (round_step b)"
  shows "\<exists>a'. observe_all obs a = Some (Inr a') \<and> P a'"
  using assms(1,2)
proof (induction obs arbitrary: a)
  case Nil
  then show ?case by simp
next
  case (Cons x obs)
  obtain c n where x: "x = (c, n)" by (cases x)
  have "P (sentence_added c n a)" using Cons.prems x by simp
  from add_knowledge_rule [of P c n a, OF this assms(3)]
  obtain a1 where a1: "add_knowledge c n a = Some (Inr a1)" "P a1" by blast
  have "\<exists>a'. observe_all obs a1 = Some (Inr a') \<and> P a'"
    using a1(2) Cons.prems(2) by (intro Cons.IH) auto
  with a1(1) x show ?case by simp
qed

section \<open>Sentences and marking\<close>

text \<open>
  Claim C7.  \<open>known_mines\<close> returns all the cells of the sentence when their number equals
  the count and the count is not zero, and the empty set otherwise; \<open>known_safes\<close> returns
  all the cells when the count is zero, and the empty set otherwise; both leave the
  sentence as it was.
\<close>

theorem known_mines_known_safes:
  "known_mines s =
     (if int (fcard (cells s)) = count s \<and> count s \<noteq> 0 then cells s else {||}, s) \<and>
   known_safes s = (if count s = 0 then cells s else {||}, s)"
  by (simp add: known_mines_eq known_safes_eq)

theorem known_mines_known_safes_witness:
  "known_mines (Sentence {|(1, 1)|} 1) = ({|(1, 1)|}, Sentence {|(1, 1)|} 1) \<and>
   known_safes (Sentence {|(2, 2), (2, 3)|} 0) = ({|(2, 2), (2, 3)|}, Sentence {|(2, 2), (2, 3)|} 0) \<and>
   known_mines (Sentence {|(2, 2), (2, 3)|} 0) = ({||}, Sentence {|(2, 2), (2, 3)|} 0) \<and>
   known_safes (Sentence {|(1, 1)|} 1) = ({||}, Sentence {|(1, 1)|} 1)"
  using known_mines_known_safes [of "Sentence {|(1, 1)|} 1"]
    known_mines_known_safes [of "Sentence {|(2, 2), (2, 3)|} 0"]
  by (simp add: Sentence_def fcard_finsert_if fcard_fempty)

text \<open>
  Claim C10.  \<open>Sentence.mark_mine\<close> and \<open>Sentence.mark_safe\<close> never raise: the
  \<open>remove\<close> is guarded by the membership test.  A sentence without the cell is
  unchanged; a sentence with the cell loses it, and \<open>mark_mine\<close> then subtracts one from
  the count whatever the count is, so that a count of 0 becomes -1.  The constructor
  stores any count as it is given.
\<close>

theorem sentence_mark_total:
  "sentence_mark_mine c s =
     Inr (if c |\<in>| cells s then s\<lparr>cells := cells s |-| {|c|}, count := count s - 1\<rparr> else s) \<and>
   sentence_mark_safe c s =
     Inr (if c |\<in>| cells s then s\<lparr>cells := cells s |-| {|c|}\<rparr> else s) \<and>
   cells (Sentence cs n) = cs \<and> count (Sentence cs n) = n \<and>
   sentence_mark_mine (0, 0) (Sentence {|(0, 0)|} 0) = Inr (Sentence {||} (- 1))"
  by (simp add: sentence_mark_mine_def sentence_mark_safe_def set_remove_def Sentence_def)

theorem sentence_mark_total_witness:
  "sentence_mark_mine (0, 1) (Sentence {|(0, 0), (0, 1)|} 0) = Inr (Sentence {|(0, 0)|} (- 1)) \<and>
   sentence_mark_safe (0, 1) (Sentence {|(0, 0), (0, 1)|} 0) = Inr (Sentence {|(0, 0)|} 0) \<and>
   sentence_mark_mine (5, 5) (Sentence {|(0, 0)|} 7) = Inr (Sentence {|(0, 0)|} 7)"
  using sentence_mark_total [of "(0, 1)" "Sentence {|(0, 0), (0, 1)|} 0"]
    sentence_mark_total [of "(5, 5)" "Sentence {|(0, 0)|} 7"]
  by (auto simp: Sentence_def)

lemma drop_safes_idem: "drop_safes S (drop_safes S k) = drop_safes S k"
  by (simp add: drop_safes_twice)

lemma drop_mines_idem: "drop_mines S (drop_mines S k) = drop_mines S k"
  by (simp add: drop_mines_twice)

text \<open>
  Claim C9.  \<open>MinesweeperAI.mark_mine\<close> and \<open>MinesweeperAI.mark_safe\<close> are idempotent:
  a second call with the same cell returns the state the first call produced.
\<close>

theorem mark_idempotent:
  "(\<exists>a1. mark_mine c a = Inr a1 \<and> mark_mine c a1 = Inr a1) \<and>
   (\<exists>a1. mark_safe c a = Inr a1 \<and> mark_safe c a1 = Inr a1)"
  by (simp add: mark_mine_eq mark_safe_eq drop_safes_idem drop_mines_idem comp_def)

theorem mark_idempotent_witness:
  "mark_mine (0, 1) ((MinesweeperAI 1 3)\<lparr>knowledge := [Sentence {|(0, 1), (0, 2)|} 1]\<rparr>) =
     Inr \<lparr>height = 1, width = 3, moves_made = {||}, mines = {|(0, 1)|}, safes = {||},
           knowledge = [Sentence {|(0, 2)|} 0]\<rparr> \<and>
   mark_mine (0, 1)
     \<lparr>height = 1, width = 3, moves_made = {||}, mines = {|(0, 1)|}, safes = {||},
       knowledge = [Sentence {|(0, 2)|} 0]\<rparr> =
     Inr \<lparr>height = 1, width = 3, moves_made = {||}, mines = {|(0, 1)|}, safes = {||},
           knowledge = [Sentence {|(0, 2)|} 0]\<rparr>"
proof -
  let ?a = "(MinesweeperAI 1 3)\<lparr>knowledge := [Sentence {|(0, 1), (0, 2)|} 1]\<rparr>"
  have v: "mark_mine (0, 1) ?a =
     Inr \<lparr>height = 1, width = 3, moves_made = {||}, mines = {|(0, 1)|}, safes = {||},
           knowledge = [Sentence {|(0, 2)|} 0]\<rparr>"
    by code_simp
  from mark_idempotent [of "(0, 1)" ?a] obtain a1
    where "mark_mine (0, 1) ?a = Inr a1" "mark_mine (0, 1) a1 = Inr a1" by blast
  with v show ?thesis by simp
qed

section \<open>Choosing a safe move\<close>

lemma first_unplayed_None:
  "first_unplayed cs played = None \<longleftrightarrow> fset_of_list cs |-| played = {||}"
  by (induction cs) auto

lemma first_unplayed_Some:
  "first_unplayed cs played = Some c \<Longrightarrow> c |\<in>| fset_of_list cs \<and> c |\<notin>| played"
  by (induction cs) (auto split: if_splits)

lemma first_unplayed_cases:
  "(case first_unplayed cs played of
      None \<Rightarrow> fset_of_list cs |-| played = {||}
    | Some c \<Rightarrow> c |\<in>| fset_of_list cs |-| played)"
  using first_unplayed_None [of cs played] first_unplayed_Some [of cs played]
  by (cases "first_unplayed cs played") auto

text \<open>
  Claim C8.  Whatever the order in which the cells of \<open>safes\<close> are visited,
  \<open>make_safe_move\<close> leaves the state as it was; it returns \<open>None\<close> exactly when every
  safe cell is already in \<open>moves_made\<close>, and otherwise a cell of \<open>safes\<close> that is not
  in \<open>moves_made\<close>.
\<close>

theorem make_safe_move_correct:
  "fset_of_list order = safes a \<Longrightarrow>
     snd (make_safe_move_in order a) = a \<and>
     (fst (make_safe_move_in order a) = None) = (safes a |-| moves_made a = {||}) \<and>
     (case fst (make_safe_move_in order a) of
        None \<Rightarrow> safes a |-| moves_made a = {||}
      | Some c \<Rightarrow> c |\<in>| safes a \<and> c |\<notin>| moves_made a)"
  using first_unplayed_cases [of order "moves_made a"]
    first_unplayed_None [of order "moves_made a"]
  by (auto simp: make_safe_move_in_def split: option.splits)

theorem make_safe_move_correct_witness:
  "fset_of_list [(0, 2), (0, 0), (0, 1)] =
     safes ((MinesweeperAI 1 3)\<lparr>safes := {|(0, 0), (0, 1), (0, 2)|}, moves_made := {|(0, 2), (0, 0)|}\<rparr>) \<and>
   make_safe_move_in [(0, 2), (0, 0), (0, 1)]
     ((MinesweeperAI 1 3)\<lparr>safes := {|(0, 0), (0, 1), (0, 2)|}, moves_made := {|(0, 2), (0, 0)|}\<rparr>) =
     (Some (0, 1),
      (MinesweeperAI 1 3)\<lparr>safes := {|(0, 0), (0, 1), (0, 2)|}, moves_made := {|(0, 2), (0, 0)|}\<rparr>)"
proof -
  let ?a = "(MinesweeperAI 1 3)\<lparr>safes := {|(0, 0), (0, 1), (0, 2)|}, moves_made := {|(0, 2), (0, 0)|}\<rparr>"
  have h: "fset_of_list [(0, 2), (0, 0), (0, 1)] = safes ?a"
    by (auto simp: MinesweeperAI_def)
  have v: "fst (make_safe_move_in [(0, 2), (0, 0), (0, 1)] ?a) = Some (0, 1)"
    by (simp add: make_safe_move_in_def MinesweeperAI_def)
  from make_safe_move_correct [OF h] have "snd (make_safe_move_in [(0, 2), (0, 0), (0, 1)] ?a) = ?a"
    by blast
  with h v show ?thesis by (simp add: prod_eq_iff)
qed

section \<open>Termination of the loop\<close>

text \<open>
  Claim C5.  The \<open>while\<close> loop of \<open>add_knowledge\<close> exits from every state, and without an
  exception, and so does every call of \<open>add_knowledge\<close>.  The loop takes its \<open>break\<close>
  exactly when the scan of the sentences finds no known safe and no known mine
  (\<open>settled\<close>); a pass that does not take it (\<open>round_step\<close>) removes at least one cell
  from the sentences: the number of distinct cells that occur in the sentences gets
  strictly smaller, which bounds the number of passes.
\<close>

theorem closure_terminates:
  "(\<exists>a'. closure a = Some (Inr a')) \<and>
   (\<exists>a'. add_knowledge c n a = Some (Inr a')) \<and>
   settled a = (snd (scan_knowledge (knowledge a) {||} {||}) = ({||}, {||})) \<and>
   closure a = (if settled a then Some (Inr a) else closure (round_step a)) \<and>
   (\<not> settled a \<longrightarrow>
      fcard (all_cells (knowledge (round_step a))) < fcard (all_cells (knowledge a)))"
proof -
  have "\<exists>a'. closure a = Some (Inr a') \<and> True \<and> settled a'"
    by (rule closure_rule) simp_all
  then have 1: "\<exists>a'. closure a = Some (Inr a')" by blast
  have "\<exists>a'. add_knowledge c n a = Some (Inr a') \<and> True \<and> settled a'"
    by (rule add_knowledge_rule) simp_all
  then have 2: "\<exists>a'. add_knowledge c n a = Some (Inr a')" by blast
  have 3: "settled a = (snd (scan_knowledge (knowledge a) {||} {||}) = ({||}, {||}))"
    by (simp add: scan_knowledge_eq settled_def)
  have 4: "closure a = (if settled a then Some (Inr a) else closure (round_step a))"
    by (rule closure_unfold)
  from 1 2 3 4 show ?thesis by (simp add: round_step_decreases)
qed

theorem closure_terminates_witness:
  "\<not> settled ((MinesweeperAI 1 3)\<lparr>knowledge := [Sentence {|(0, 1), (0, 2)|} 0]\<rparr>) \<and>
   fcard (all_cells (knowledge (round_step ((MinesweeperAI 1 3)\<lparr>knowledge := [Sentence {|(0, 1), (0, 2)|} 0]\<rparr>))))
     < fcard (all_cells (knowledge ((MinesweeperAI 1 3)\<lparr>knowledge := [Sentence {|(0, 1), (0, 2)|} 0]\<rparr>))) \<and>
   (\<exists>a'. closure ((MinesweeperAI 1 3)\<lparr>knowledge := [Sentence {|(0, 1), (0, 2)|} 0]\<rparr>) = Some (Inr a'))"
proof -
  let ?a = "(MinesweeperAI 1 3)\<lparr>knowledge := [Sentence {|(0, 1), (0, 2)|} 0]\<rparr>"
  have h: "\<not> settled ?a"
    by (simp add: settled_def MinesweeperAI_def Sentence_def known_safes_eq)
  from closure_terminates [of ?a "(0, 0)" 0] h show ?thesis by blast
qed

section \<open>No resolved cell stays in a sentence\<close>

lemma resolved_free_init: "resolved_free (MinesweeperAI h w)"
  by (simp add: resolved_free_def MinesweeperAI_def)

lemma resolved_free_sentence_added:
  assumes "resolved_free a"
  shows "resolved_free (sentence_added c n a)"
proof -
  have "cells k |\<inter>| (safes a |\<union>| mines a) = {||} \<Longrightarrow>
      cells (drop_safes {|c|} k) |\<inter>| (finsert c (safes a) |\<union>| mines a) = {||}" for k
    by (auto simp: drop_safes_def)
  moreover have "ffilter (undetermined a) (neighbours c) |\<inter>| (finsert c (safes a) |\<union>| mines a) = {||}"
    using not_self_neighbour [of c] by (auto simp: undetermined_def)
  ultimately show ?thesis
    using assms by (auto simp: resolved_free_def sentence_added_def Sentence_def)
qed

lemma resolved_free_round_step:
  assumes "resolved_free a"
  shows "resolved_free (round_step a)"
proof -
  define ns nm where "ns = found_safes (knowledge a)" and "nm = found_mines (knowledge a)"
  define K where "K = map (\<lambda>k. drop_mines nm (drop_safes ns k)) (knowledge a)"
  define R where "R = (ns |\<union>| safes a) |\<union>| (nm |\<union>| mines a)"
  have K: "cells k |\<inter>| R = {||}" if "k \<in> set K" for k
  proof -
    from that obtain k0 where k0: "k0 \<in> set (knowledge a)" "k = drop_mines nm (drop_safes ns k0)"
      by (auto simp: K_def)
    from assms k0(1) have "cells k0 |\<inter>| (safes a |\<union>| mines a) = {||}"
      by (simp add: resolved_free_def)
    then show ?thesis by (auto simp: k0(2) drop_mines_def drop_safes_def R_def)
  qed
  have N: "cells k |\<inter>| R = {||}" if "k \<in> set (new_knowledge K)" for k
  proof -
    from cells_new_knowledge [OF that] obtain k1 where "k1 \<in> set K" "cells k |\<subseteq>| cells k1"
      by blast
    with K [of k1] show ?thesis by blast
  qed
  have "round_step a = a\<lparr>safes := ns |\<union>| safes a, mines := nm |\<union>| mines a,
      knowledge := K @ new_knowledge K\<rparr>"
    by (simp add: round_step_def resolve_def Let_def ns_def nm_def K_def)
  with K N show ?thesis by (auto simp: resolved_free_def R_def)
qed

lemma observe_all_resolved_free:
  "resolved_free a \<Longrightarrow> \<exists>a'. observe_all obs a = Some (Inr a') \<and> resolved_free a'"
  by (rule observe_all_rule) (simp_all add: resolved_free_sentence_added resolved_free_round_step)

text \<open>
  Claim C3.  Started on a new \<open>MinesweeperAI\<close>, every sequence of \<open>add_knowledge\<close> calls
  returns, and in the state it returns no sentence holds a cell that is in \<open>mines\<close> or in
  \<open>safes\<close>.  The same holds from any state in which no sentence holds such a cell.
\<close>

theorem no_resolved_cell_in_knowledge:
  "(\<exists>a'. observe_all obs (MinesweeperAI h w) = Some (Inr a') \<and>
      (\<forall>k \<in> set (knowledge a'). \<forall>c. c |\<in>| cells k \<longrightarrow> c |\<notin>| mines a' \<and> c |\<notin>| safes a')) \<and>
   (resolved_free a \<longrightarrow>
      (\<exists>a'. observe_all obs a = Some (Inr a') \<and> resolved_free a'))"
proof -
  from observe_all_resolved_free [OF resolved_free_init, of obs h w]
  obtain a' where a': "observe_all obs (MinesweeperAI h w) = Some (Inr a')" "resolved_free a'"
    by blast
  from a'(2) have "\<forall>k \<in> set (knowledge a'). \<forall>c. c |\<in>| cells k \<longrightarrow> c |\<notin>| mines a' \<and> c |\<notin>| safes a'"
    by (auto simp: resolved_free_def)
  with a'(1) show ?thesis using observe_all_resolved_free [of a obs] by blast
qed

theorem no_resolved_cell_in_knowledge_witness:
  "resolved_free (MinesweeperAI 3 3) \<and>
   (\<exists>a'. observe_all [((1, 1), 1), ((0, 2), 0)] (MinesweeperAI 3 3) = Some (Inr a') \<and>
      resolved_free a' \<and>
      a' = \<lparr>height = 3, width = 3, moves_made = {|(0, 2), (1, 1)|}, mines = {||},
             safes = {|(1, 2), (0, 1), (0, 2), (1, 1)|},
             knowledge = [Sentence {|(2, 2), (2, 1), (2, 0), (1, 0), (0, 0)|} 1, Sentence {||} 0]\<rparr>)"
proof -
  have h: "resolved_free (MinesweeperAI 3 3)" by (rule resolved_free_init)
  have v: "observe_all [((1, 1), 1), ((0, 2), 0)] (MinesweeperAI 3 3) =
      Some (Inr \<lparr>height = 3, width = 3, moves_made = {|(0, 2), (1, 1)|}, mines = {||},
             safes = {|(1, 2), (0, 1), (0, 2), (1, 1)|},
             knowledge = [Sentence {|(2, 2), (2, 1), (2, 0), (1, 0), (0, 0)|} 1, Sentence {||} 0]\<rparr>)"
    by code_simp
  from no_resolved_cell_in_knowledge [of "[((1, 1), 1), ((0, 2), 0)]" 3 3 "MinesweeperAI 3 3"] h
  obtain a' where "observe_all [((1, 1), 1), ((0, 2), 0)] (MinesweeperAI 3 3) = Some (Inr a')"
    "resolved_free a'" by blast
  with h v show ?thesis by simp
qed

section \<open>Duplicates and subset inference\<close>

text \<open>
  In a pass that reaches the subset inference, every sentence collected is new, and the
  difference of every pair of different sentences, the cells of one a subset of the cells
  of the other, is among the sentences held afterwards.
\<close>

lemma new_knowledge_fresh: "k \<in> set (new_knowledge K) \<Longrightarrow> k \<notin> set K"
  by (auto simp: new_knowledge_def infer_pair_def Let_def split: if_splits)

lemma new_knowledge_complete:
  assumes "A \<in> set K" "B \<in> set K" "A \<noteq> B" "cells B |\<subseteq>| cells A"
  shows "Sentence (cells A |-| cells B) (count A - count B) \<in> set (K @ new_knowledge K)"
proof (cases "Sentence (cells A |-| cells B) (count A - count B) \<in> set K")
  case True
  then show ?thesis by simp
next
  case False
  with assms(3,4) have "infer_pair K A B = [Sentence (cells A |-| cells B) (count A - count B)]"
    by (simp add: infer_pair_def)
  then have "Sentence (cells A |-| cells B) (count A - count B) \<in> set (infer_pair K A B)"
    by simp
  with assms(1,2) have "\<exists>s1 \<in> set K. \<exists>s2 \<in> set K.
      Sentence (cells A |-| cells B) (count A - count B) \<in> set (infer_pair K s1 s2)"
    by blast
  then have "Sentence (cells A |-| cells B) (count A - count B) \<in> set (new_knowledge K)"
    by (simp add: new_knowledge_def)
  then show ?thesis by simp
qed

lemma length_round_step: "length (knowledge a) \<le> length (knowledge (round_step a))"
  by (simp add: round_step_def resolve_def Let_def)

lemma length_add_knowledge:
  "\<exists>a'. add_knowledge c n a = Some (Inr a') \<and> length (knowledge a) < length (knowledge a')"
proof -
  have "\<exists>a'. add_knowledge c n a = Some (Inr a') \<and>
      length (knowledge a) < length (knowledge a') \<and> settled a'"
  proof (rule add_knowledge_rule)
    show "length (knowledge a) < length (knowledge (sentence_added c n a))"
      by (simp add: sentence_added_def)
  next
    fix b :: ai
    assume "length (knowledge a) < length (knowledge b)"
    with length_round_step [of b] show "length (knowledge a) < length (knowledge (round_step b))"
      by simp
  qed
  then show ?thesis by blast
qed

text \<open>
  Claim C2, as amended.  \<open>add_knowledge\<close> never removes a sentence: it returns with more
  sentences than it was called with.  Its only test for duplicates is in the subset
  inference, where a derived sentence is collected only if no equal sentence is among
  the sentences held at that moment.
\<close>

theorem duplicates_only_checked_at_inference:
  "(\<forall>k \<in> set (new_knowledge K). k \<notin> set K) \<and>
   (\<exists>a'. add_knowledge c n a = Some (Inr a') \<and> length (knowledge a) < length (knowledge a'))"
  using new_knowledge_fresh [of _ K] length_add_knowledge [of c n a] by blast

theorem duplicates_only_checked_at_inference_witness:
  "new_knowledge [Sentence {|(0, 0), (0, 1), (0, 2)|} 1, Sentence {|(0, 0), (0, 1)|} 1] =
     [Sentence {|(0, 2)|} 0] \<and>
   Sentence {|(0, 2)|} 0 \<notin> set [Sentence {|(0, 0), (0, 1), (0, 2)|} 1, Sentence {|(0, 0), (0, 1)|} 1] \<and>
   (\<exists>a'. add_knowledge (0, 0) 0 (MinesweeperAI 1 2) = Some (Inr a') \<and> 0 < length (knowledge a'))"
proof -
  let ?K = "[Sentence {|(0, 0), (0, 1), (0, 2)|} 1, Sentence {|(0, 0), (0, 1)|} 1]"
  have v: "new_knowledge ?K = [Sentence {|(0, 2)|} 0]" by code_simp
  from duplicates_only_checked_at_inference [of ?K "(0, 0)" 0 "MinesweeperAI 1 2"] v
  show ?thesis by (simp add: MinesweeperAI_def)
qed

text \<open>
  Claim C2 as stated fails: on a board of one row and two columns, the sentence of the
  first observation is emptied in place by the resolution of \<open>(0, 1)\<close>, the second
  observation appends an equal sentence, and both stay in \<open>knowledge\<close>.
\<close>

theorem duplicates_only_checked_at_inference_counterexample:
  "observe_all [((0, 0), 0), ((0, 1), 0)] (MinesweeperAI 1 2) =
     Some (Inr \<lparr>height = 1, width = 2, moves_made = {|(0, 0), (0, 1)|}, mines = {||},
                 safes = {|(0, 0), (0, 1)|},
                 knowledge = [Sentence {||} 0, Sentence {||} 0]\<rparr>) \<and>
   \<not> distinct (knowledge
       \<lparr>height = 1, width = 2, moves_made = {|(0, 0), (0, 1)|}, mines = {||},
         safes = {|(0, 0), (0, 1)|},
         knowledge = [Sentence {||} 0, Sentence {||} 0]\<rparr>)"
  by code_simp

text \<open>
  Claim C1 fails on the code.  The subset inference stands after the \<open>break\<close> of the loop,
  so it runs only in a pass in which some sentence yields a known safe or a known mine.
  On a board of two rows and three columns with its mine at \<open>(0, 0)\<close>, the truthful
  observations \<open>((1, 1), 1)\<close> and \<open>((1, 0), 1)\<close> leave two different sentences, the
  cells of the second a subset of the cells of the first, and nothing is derived from
  them: \<open>(0, 2)\<close> and \<open>(1, 2)\<close> are not marked safe.  Run on the two sentences of the
  claim, the loop returns the state unchanged.
\<close>

theorem subset_inference_skipped:
  "truthful \<lparr>g_height = 2, g_width = 3, board = [[True, False, False], [False, False, False]]\<rparr>
     ((1, 1), 1) \<and>
   truthful \<lparr>g_height = 2, g_width = 3, board = [[True, False, False], [False, False, False]]\<rparr>
     ((1, 0), 1) \<and>
   observe_all [((1, 1), 1), ((1, 0), 1)] (MinesweeperAI 2 3) =
     Some (Inr \<lparr>height = 2, width = 3, moves_made = {|(1, 0), (1, 1)|}, mines = {||},
                 safes = {|(1, 0), (1, 1)|},
                 knowledge = [Sentence {|(0, 0), (0, 1), (0, 2), (1, 2)|} 1,
                              Sentence {|(0, 0), (0, 1)|} 1]\<rparr>) \<and>
   closure \<lparr>height = 1, width = 3, moves_made = {||}, mines = {||}, safes = {||},
             knowledge = [Sentence {|(0, 0), (0, 1), (0, 2)|} 1, Sentence {|(0, 0), (0, 1)|} 1]\<rparr> =
     Some (Inr \<lparr>height = 1, width = 3, moves_made = {||}, mines = {||}, safes = {||},
                 knowledge = [Sentence {|(0, 0), (0, 1), (0, 2)|} 1,
                              Sentence {|(0, 0), (0, 1)|} 1]\<rparr>) \<and>
   new_knowledge [Sentence {|(0, 0), (0, 1), (0, 2)|} 1, Sentence {|(0, 0), (0, 1)|} 1] =
     [Sentence {|(0, 2)|} 0]"
  by code_simp

section \<open>The board and its counts\<close>

lemma board_lookup:
  assumes "well_formed g" "0 \<le> i" "i < g_height g" "0 \<le> j" "j < g_width g"
  shows "py_index (board g) i = Inr (board g ! nat i)"
    and "py_index (board g ! nat i) j = Inr (board g ! nat i ! nat j)"
proof -
  from assms have i: "nat i < length (board g)" by (simp add: well_formed_def)
  then have "board g ! nat i \<in> set (board g)" by simp
  with assms have j: "nat j < length (board g ! nat i)" by (simp add: well_formed_def)
  from i assms(2) show "py_index (board g) i = Inr (board g ! nat i)"
    by (simp add: py_index_def)
  from j assms(4) show "py_index (board g ! nat i) j = Inr (board g ! nat i ! nat j)"
    by (simp add: py_index_def)
qed

lemma count_cell_eq:
  assumes "well_formed g"
  shows "count_cell g c d cnt = Inr (if d \<noteq> c \<and> mine_at g d then cnt + 1 else cnt)"
proof (cases "(0 \<le> fst d \<and> fst d < g_height g) \<and> (0 \<le> snd d \<and> snd d < g_width g)")
  case True
  then show ?thesis
    using board_lookup [OF assms, of "fst d" "snd d"]
    by (simp add: count_cell_def mine_at_def)
next
  case False
  then show ?thesis by (auto simp: count_cell_def mine_at_def)
qed

lemma fold_count:
  "fold (\<lambda>d cnt. if P d then cnt + 1 else cnt) xs (m :: int) = m + int (length (filter P xs))"
  by (induction xs arbitrary: m) simp_all

lemma length_filter_ffilter:
  "distinct xs \<Longrightarrow> length (filter P xs) = fcard (ffilter P (fset_of_list xs))"
proof (induction xs)
  case Nil
  have "ffilter P {||} = {||}" by auto
  then show ?case by (simp add: fcard_fempty)
next
  case (Cons x xs)
  then have x: "x |\<notin>| ffilter P (fset_of_list xs)" by (simp add: fset_of_list_elem)
  show ?case
  proof (cases "P x")
    case True
    then have "ffilter P (finsert x (fset_of_list xs)) = finsert x (ffilter P (fset_of_list xs))"
      by auto
    with True x Cons show ?thesis by (simp add: fcard_finsert_if)
  next
    case False
    then have "ffilter P (finsert x (fset_of_list xs)) = ffilter P (fset_of_list xs)" by auto
    with False Cons show ?thesis by simp
  qed
qed

lemma nearby_mines_eq:
  assumes "well_formed g"
  shows "nearby_mines g c = Inr (int (fcard (ffilter (mine_at g) (neighbours c))))"
proof -
  have "nearby_mines g c =
      Inr (fold (\<lambda>d cnt. if d \<noteq> c \<and> mine_at g d then cnt + 1 else cnt) (block c) 0)"
    unfolding nearby_mines_def by (rule for_each_total) (rule count_cell_eq [OF assms])
  also have "\<dots> = Inr (int (fcard (ffilter (\<lambda>d. d \<noteq> c \<and> mine_at g d) (finsert c (neighbours c)))))"
    by (simp only: fold_count length_filter_ffilter [OF distinct_block] fset_of_list_block) simp
  also have "ffilter (\<lambda>d. d \<noteq> c \<and> mine_at g d) (finsert c (neighbours c)) =
      ffilter (mine_at g) (neighbours c)"
    using not_self_neighbour [of c] by auto
  finally show ?thesis .
qed

lemma is_mine_False:
  assumes "well_formed g" "is_mine g c = Inr False"
  shows "\<not> mine_at g c"
proof
  assume m: "mine_at g c"
  then have "is_mine g c = Inr True"
    using board_lookup [OF assms(1), of "fst c" "snd c"]
    by (cases c) (simp add: is_mine_def mine_at_def)
  with assms(2) show False by simp
qed

section \<open>Truthful observations keep safes and mines apart\<close>

lemma fcard_diff_int:
  "B |\<subseteq>| A \<Longrightarrow> int (fcard (A |-| B)) = int (fcard A) - int (fcard B)"
  using fcard_mono [of B A] by (simp add: fcard_funion_fsubset)

lemma sound_init: "sound g (MinesweeperAI (g_height g) (g_width g))"
  by (simp add: sound_def MinesweeperAI_def)

lemma sound_sentence_added:
  assumes s: "sound g a" and c: "\<not> mine_at g c"
    and n: "n = int (fcard (ffilter (mine_at g) (neighbours c)))"
  shows "sound g (sentence_added c n a)"
proof -
  from s have hw: "height a = g_height g" "width a = g_width g"
    and sf: "\<And>d. d |\<in>| safes a \<Longrightarrow> \<not> mine_at g d"
    and mn: "\<And>d. d |\<in>| mines a \<Longrightarrow> mine_at g d"
    and kn: "\<And>k. k \<in> set (knowledge a) \<Longrightarrow> int (fcard (ffilter (mine_at g) (cells k))) = count k"
    by (auto simp: sound_def)
  from c mn have cm: "c |\<notin>| mines a" by blast
  have old: "int (fcard (ffilter (mine_at g) (cells (drop_safes {|c|} k)))) = count (drop_safes {|c|} k)"
    if "k \<in> set (knowledge a)" for k
  proof -
    have "ffilter (mine_at g) (cells k |-| {|c|}) = ffilter (mine_at g) (cells k)"
      using c by auto
    with kn [OF that] show ?thesis by (simp add: drop_safes_def)
  qed
  let ?N = "ffilter (mine_at g) (neighbours c)"
  let ?M = "neighbours c |\<inter>| mines a"
  have sub: "?M |\<subseteq>| ?N" using mn by auto
  have "ffilter (mine_at g) (ffilter (undetermined a) (neighbours c)) = ?N |-| ?M"
    using sf by (auto simp: undetermined_def in_bounds_def mine_at_def hw)
  then have new: "int (fcard (ffilter (mine_at g) (ffilter (undetermined a) (neighbours c)))) =
      n - (int (fcard ?M) + (if c |\<in>| mines a then 1 else 0))"
    using cm n by (simp add: fcard_diff_int [OF sub])
  have sf': "\<not> mine_at g d" if "d |\<in>| finsert c (safes a)" for d
    using that c sf by (cases d) auto
  show ?thesis
    unfolding sound_def sentence_added_def
    using hw sf' mn old new by (auto simp: Sentence_def)
qed

lemma found_safes_sound:
  assumes "\<And>k. k \<in> set K \<Longrightarrow> int (fcard (ffilter P (cells k))) = count k"
    and "c |\<in>| found_safes K"
  shows "\<not> P c"
proof -
  from assms(2) obtain k where k: "k \<in> set K" "count k = 0" "c |\<in>| cells k"
    by (auto simp: found_safes_iff)
  from assms(1) [OF k(1)] k(2) have "ffilter P (cells k) = {||}" by simp
  with k(3) show ?thesis by auto
qed

lemma found_mines_sound:
  assumes "\<And>k. k \<in> set K \<Longrightarrow> int (fcard (ffilter P (cells k))) = count k"
    and "c |\<in>| found_mines K"
  shows "P c"
proof -
  from assms(2) obtain k where k: "k \<in> set K" "int (fcard (cells k)) = count k" "c |\<in>| cells k"
    by (auto simp: found_mines_iff)
  from assms(1) [OF k(1)] k(2) have "fcard (cells k) \<le> fcard (ffilter P (cells k))" by simp
  moreover have "ffilter P (cells k) |\<subseteq>| cells k" by auto
  ultimately have "ffilter P (cells k) = cells k" by (rule fcard_seteq [rotated])
  with k(3) show ?thesis by (metis ffmember_filter)
qed

lemma resolved_sentence_sound:
  assumes k: "int (fcard (ffilter P (cells k))) = count k"
    and ns: "\<And>c. c |\<in>| ns \<Longrightarrow> \<not> P c" and nm: "\<And>c. c |\<in>| nm \<Longrightarrow> P c"
  shows "int (fcard (ffilter P (cells (drop_mines nm (drop_safes ns k))))) =
      count (drop_mines nm (drop_safes ns k))"
proof -
  let ?C = "cells k |-| ns"
  have 1: "ffilter P ?C = ffilter P (cells k)" using ns by auto
  have sub: "?C |\<inter>| nm |\<subseteq>| ffilter P ?C" using nm by auto
  have "ffilter P (?C |-| nm) = ffilter P ?C |-| (?C |\<inter>| nm)" by auto
  then have "int (fcard (ffilter P (?C |-| nm))) = int (fcard (ffilter P ?C)) - int (fcard (?C |\<inter>| nm))"
    by (simp add: fcard_diff_int [OF sub])
  with k 1 show ?thesis by (simp add: drop_mines_def drop_safes_def)
qed

lemma new_knowledge_sound:
  assumes K: "\<And>k. k \<in> set K \<Longrightarrow> int (fcard (ffilter P (cells k))) = count k"
    and k: "k \<in> set (new_knowledge K)"
  shows "int (fcard (ffilter P (cells k))) = count k"
proof -
  from k obtain k1 k2 where k12: "k1 \<in> set K" "k2 \<in> set K" "cells k2 |\<subseteq>| cells k1"
    "k = Sentence (cells k1 |-| cells k2) (count k1 - count k2)"
    by (auto simp: new_knowledge_def infer_pair_def Let_def split: if_splits)
  have sub: "ffilter P (cells k2) |\<subseteq>| ffilter P (cells k1)" using k12(3) by auto
  have "ffilter P (cells k1 |-| cells k2) = ffilter P (cells k1) |-| ffilter P (cells k2)" by auto
  then show ?thesis
    using K [OF k12(1)] K [OF k12(2)] by (simp add: k12(4) Sentence_def fcard_diff_int [OF sub])
qed

lemma sound_round_step:
  assumes s: "sound g a"
  shows "sound g (round_step a)"
proof -
  define ns nm where "ns = found_safes (knowledge a)" and "nm = found_mines (knowledge a)"
  define K where "K = map (\<lambda>k. drop_mines nm (drop_safes ns k)) (knowledge a)"
  from s have hw: "height a = g_height g" "width a = g_width g"
    and sf: "\<And>d. d |\<in>| safes a \<Longrightarrow> \<not> mine_at g d"
    and mn: "\<And>d. d |\<in>| mines a \<Longrightarrow> mine_at g d"
    and kn: "\<And>k. k \<in> set (knowledge a) \<Longrightarrow> int (fcard (ffilter (mine_at g) (cells k))) = count k"
    by (auto simp: sound_def)
  have ns: "\<not> mine_at g c" if "c |\<in>| ns" for c
    using found_safes_sound [of "knowledge a" "mine_at g" c] kn that by (simp add: ns_def)
  have nm: "mine_at g c" if "c |\<in>| nm" for c
    using found_mines_sound [of "knowledge a" "mine_at g" c] kn that by (simp add: nm_def)
  have K: "int (fcard (ffilter (mine_at g) (cells k))) = count k" if "k \<in> set K" for k
  proof -
    from that obtain k0 where k0: "k0 \<in> set (knowledge a)" "k = drop_mines nm (drop_safes ns k0)"
      by (auto simp: K_def)
    show ?thesis unfolding k0(2) by (rule resolved_sentence_sound [OF kn [OF k0(1)] ns nm])
  qed
  have N: "int (fcard (ffilter (mine_at g) (cells k))) = count k" if "k \<in> set (new_knowledge K)" for k
    using new_knowledge_sound [of K "mine_at g" k] K that by blast
  have r: "round_step a = a\<lparr>safes := ns |\<union>| safes a, mines := nm |\<union>| mines a,
      knowledge := K @ new_knowledge K\<rparr>"
    by (simp add: round_step_def resolve_def Let_def ns_def nm_def K_def)
  have sf': "\<not> mine_at g d" if "d |\<in>| ns |\<union>| safes a" for d
    using that ns sf by (cases d) auto
  have mn': "mine_at g d" if "d |\<in>| nm |\<union>| mines a" for d
    using that nm mn by (cases d) auto
  show ?thesis
    unfolding sound_def r using hw sf' mn' K N by auto
qed

lemma sound_observe_all:
  assumes wf: "well_formed g" and s: "sound g a" and obs: "\<forall>x \<in> set obs. truthful g x"
  shows "\<exists>a'. observe_all obs a = Some (Inr a') \<and> sound g a'"
proof (rule observe_all_rule [of "sound g", OF s])
  fix b c n
  assume b: "sound g b" and cn: "(c, n) \<in> set obs"
  from obs cn have t: "is_mine g c = Inr False" "nearby_mines g c = Inr n"
    by (auto simp: truthful_def)
  from t(2) have "n = int (fcard (ffilter (mine_at g) (neighbours c)))"
    by (simp add: nearby_mines_eq [OF wf])
  with b is_mine_False [OF wf t(1)] show "sound g (sentence_added c n b)"
    by (rule sound_sentence_added)
next
  fix b assume "sound g b"
  then show "sound g (round_step b)" by (rule sound_round_step)
qed

lemma sound_disjoint: "sound g a \<Longrightarrow> safes a |\<inter>| mines a = {||}"
  by (auto simp: sound_def)

text \<open>
  Claim C4, as amended.  When every call reports a cell that is not a mine of a board
  together with the number \<open>nearby_mines\<close> gives for it on that board, every sequence of
  \<open>add_knowledge\<close> calls on a new \<open>MinesweeperAI\<close> of the board's size returns, and in
  the state it returns \<open>safes\<close> and \<open>mines\<close> have no cell in common.
\<close>

theorem safes_mines_disjoint:
  assumes "well_formed g" and "\<forall>x \<in> set obs. truthful g x"
  shows "\<exists>a'. observe_all obs (MinesweeperAI (g_height g) (g_width g)) = Some (Inr a') \<and>
           safes a' |\<inter>| mines a' = {||}"
  using sound_observe_all [OF assms(1) sound_init assms(2)] sound_disjoint by blast

theorem safes_mines_disjoint_witness:
  "well_formed \<lparr>g_height = 2, g_width = 3, board = [[True, False, False], [False, False, False]]\<rparr> \<and>
   truthful \<lparr>g_height = 2, g_width = 3, board = [[True, False, False], [False, False, False]]\<rparr> ((1, 1), 1) \<and>
   truthful \<lparr>g_height = 2, g_width = 3, board = [[True, False, False], [False, False, False]]\<rparr> ((1, 0), 1) \<and>
   truthful \<lparr>g_height = 2, g_width = 3, board = [[True, False, False], [False, False, False]]\<rparr> ((1, 2), 0) \<and>
   (\<exists>a'. observe_all [((1, 1), 1), ((1, 0), 1), ((1, 2), 0)] (MinesweeperAI 2 3) = Some (Inr a') \<and>
      safes a' |\<inter>| mines a' = {||})"
proof -
  let ?g = "\<lparr>g_height = 2, g_width = 3, board = [[True, False, False], [False, False, False]]\<rparr>"
  have wf: "well_formed ?g" by (simp add: well_formed_def)
  have t: "truthful ?g ((1, 1), 1)" "truthful ?g ((1, 0), 1)" "truthful ?g ((1, 2), 0)"
    by code_simp+
  then have "\<forall>x \<in> set [((1, 1), 1), ((1, 0), 1), ((1, 2), 0)]. truthful ?g x" by simp
  from safes_mines_disjoint [OF wf this] wf t show ?thesis by simp
qed

text \<open>
  Claim C4 as stated fails: on a board of one row and two columns, a first call reports one
  mine next to \<open>(0, 0)\<close>, which makes \<open>(0, 1)\<close> a known mine, and a second call reports
  \<open>(0, 1)\<close> itself as a revealed cell.  No board gives these two reports.
\<close>

theorem safes_mines_disjoint_counterexample:
  "observe_all [((0, 0), 1), ((0, 1), 0)] (MinesweeperAI 1 2) =
     Some (Inr \<lparr>height = 1, width = 2, moves_made = {|(0, 0), (0, 1)|},
                 mines = {|(0, 1)|}, safes = {|(0, 0), (0, 1)|},
                 knowledge = [Sentence {||} 0, Sentence {||} (- 1)]\<rparr>) \<and>
   safes \<lparr>height = 1, width = 2, moves_made = {|(0, 0), (0, 1)|},
           mines = {|(0, 1)|}, safes = {|(0, 0), (0, 1)|},
           knowledge = [Sentence {||} 0, Sentence {||} (- 1)]\<rparr> |\<inter>|
   mines \<lparr>height = 1, width = 2, moves_made = {|(0, 0), (0, 1)|},
           mines = {|(0, 1)|}, safes = {|(0, 0), (0, 1)|},
           knowledge = [Sentence {||} 0, Sentence {||} (- 1)]\<rparr> \<noteq> {||}"
  by code_simp

section \<open>The sentence appended for an observation\<close>

text \<open>
  Steps 1 to 3 of \<open>add_knowledge\<close> leave the sentence the specification describes
  exactly when the observed cell is not in \<open>mines\<close>: the loop that counts the known
  mines visits the observed cell as well as its neighbours.
\<close>

lemma new_sentence_claim_iff:
  "new_sentence_as_claimed c n a \<longleftrightarrow> c |\<notin>| mines a"
proof -
  have 1: "(\<lambda>d. in_bounds a d \<and> d |\<notin>| safes a \<and> d |\<notin>| mines a) = undetermined a"
    by (auto simp: undetermined_def)
  have 2: "(\<lambda>k. k\<lparr>cells := cells k |-| {|c|}\<rparr>) = drop_safes {|c|}"
    by (auto simp: drop_safes_def)
  show ?thesis
    by (simp add: new_sentence_as_claimed_def add_sentence_eq sentence_added_def 1 2 Sentence_def)
qed

text \<open>
  Claim C6.  Take a board, a sequence of truthful observations made on a new
  \<open>MinesweeperAI\<close> of the board's size, and one more truthful observation: a cell that is
  not a mine of the board, with the count \<open>nearby_mines\<close> gives for it.  The calls made
  so far return, and in the state they leave, steps 1 to 3 of \<open>add_knowledge\<close> for the
  new observation never raise and append exactly one sentence to the sentences held
  (from which \<open>mark_safe\<close> has removed the observed cell): its cells are the neighbours
  of the observed cell that lie on the board and are neither in \<open>safes\<close> nor in
  \<open>mines\<close>, and its count is the reported count minus the number of neighbours that
  are in \<open>mines\<close>.
\<close>

theorem new_sentence_of_truthful_observation:
  assumes "well_formed g" and "\<forall>x \<in> set obs. truthful g x" and "truthful g (c, n)"
  shows "\<exists>a. observe_all obs (MinesweeperAI (g_height g) (g_width g)) = Some (Inr a) \<and>
           new_sentence_as_claimed c n a"
proof -
  from sound_observe_all [OF assms(1) sound_init assms(2)]
  obtain a where a: "observe_all obs (MinesweeperAI (g_height g) (g_width g)) = Some (Inr a)"
    "sound g a" by blast
  from assms(3) have "is_mine g c = Inr False" by (simp add: truthful_def)
  then have "\<not> mine_at g c" by (rule is_mine_False [OF assms(1)])
  with a(2) have "c |\<notin>| mines a" unfolding sound_def by blast
  then have "new_sentence_as_claimed c n a" by (simp add: new_sentence_claim_iff)
  with a(1) show ?thesis by blast
qed

theorem new_sentence_of_truthful_observation_witness:
  "well_formed \<lparr>g_height = 2, g_width = 3, board = [[True, False, False], [False, False, False]]\<rparr> \<and>
   truthful \<lparr>g_height = 2, g_width = 3, board = [[True, False, False], [False, False, False]]\<rparr> ((1, 1), 1) \<and>
   truthful \<lparr>g_height = 2, g_width = 3, board = [[True, False, False], [False, False, False]]\<rparr> ((1, 0), 1) \<and>
   truthful \<lparr>g_height = 2, g_width = 3, board = [[True, False, False], [False, False, False]]\<rparr> ((1, 2), 0) \<and>
   truthful \<lparr>g_height = 2, g_width = 3, board = [[True, False, False], [False, False, False]]\<rparr> ((0, 1), 1) \<and>
   (\<exists>a. observe_all [((1, 1), 1), ((1, 0), 1), ((1, 2), 0)] (MinesweeperAI 2 3) = Some (Inr a) \<and>
      new_sentence_as_claimed (0, 1) 1 a \<and>
      mines a = {|(0, 0)|} \<and>
      add_sentence (0, 1) 1 a =
        Inr \<lparr>height = 2, width = 3, moves_made = {|(0, 1), (1, 0), (1, 1), (1, 2)|},
              mines = {|(0, 0)|}, safes = {|(0, 1), (0, 2), (1, 0), (1, 1), (1, 2)|},
              knowledge = [Sentence {||} 0, Sentence {||} 0, Sentence {||} 0, Sentence {||} 0]\<rparr>)"
proof -
  let ?g = "\<lparr>g_height = 2, g_width = 3, board = [[True, False, False], [False, False, False]]\<rparr>"
  let ?r = "\<lparr>height = 2, width = 3, moves_made = {|(1, 0), (1, 1), (1, 2)|},
              mines = {|(0, 0)|}, safes = {|(0, 1), (0, 2), (1, 0), (1, 1), (1, 2)|},
              knowledge = [Sentence {||} 0, Sentence {||} 0, Sentence {||} 0]\<rparr>"
  have wf: "well_formed ?g" by (simp add: well_formed_def)
  have t: "truthful ?g ((1, 1), 1)" "truthful ?g ((1, 0), 1)" "truthful ?g ((1, 2), 0)"
    and tc: "truthful ?g ((0, 1), 1)"
    by code_simp+
  from t have ts: "\<forall>x \<in> set [((1, 1), 1), ((1, 0), 1), ((1, 2), 0)]. truthful ?g x" by simp
  have v: "observe_all [((1, 1), 1), ((1, 0), 1), ((1, 2), 0)] (MinesweeperAI 2 3) = Some (Inr ?r)"
    by code_simp
  have w: "add_sentence (0, 1) 1 ?r =
        Inr \<lparr>height = 2, width = 3, moves_made = {|(0, 1), (1, 0), (1, 1), (1, 2)|},
              mines = {|(0, 0)|}, safes = {|(0, 1), (0, 2), (1, 0), (1, 1), (1, 2)|},
              knowledge = [Sentence {||} 0, Sentence {||} 0, Sentence {||} 0, Sentence {||} 0]\<rparr>"
    by code_simp
  from new_sentence_of_truthful_observation [OF wf ts tc]
  obtain a where a: "observe_all [((1, 1), 1), ((1, 0), 1), ((1, 2), 0)] (MinesweeperAI 2 3) = Some (Inr a)"
    "new_sentence_as_claimed (0, 1) 1 a" by auto
  from a(1) v have "a = ?r" by simp
  with a v w wf t tc show ?thesis by simp
qed

text \<open>
  Outside truthful play the observed cell can itself be in \<open>mines\<close>, and is then
  counted: after \<open>add_knowledge((0, 0), 1)\<close> on a board of one row and two columns,
  \<open>(0, 1)\<close> is a known mine, and observing \<open>(0, 1)\<close> with count 0 appends a sentence of
  count -1.  No board gives these two reports.
\<close>

lemma observed_mine_is_counted:
  "observe_all [((0, 0), 1)] (MinesweeperAI 1 2) =
     Some (Inr \<lparr>height = 1, width = 2, moves_made = {|(0, 0)|}, mines = {|(0, 1)|},
                 safes = {|(0, 0)|}, knowledge = [Sentence {||} 0]\<rparr>) \<and>
   add_sentence (0, 1) 0
     \<lparr>height = 1, width = 2, moves_made = {|(0, 0)|}, mines = {|(0, 1)|},
       safes = {|(0, 0)|}, knowledge = [Sentence {||} 0]\<rparr> =
     Inr \<lparr>height = 1, width = 2, moves_made = {|(0, 0), (0, 1)|}, mines = {|(0, 1)|},
           safes = {|(0, 0), (0, 1)|}, knowledge = [Sentence {||} 0, Sentence {||} (- 1)]\<rparr>"
  by code_simp

end
